theory Spec2Isabelle
  imports Main "HOL-Library.Sublist"
begin

section \<open>Characters\<close>

text \<open>
  The Python sources work on \<^verbatim>\<open>str\<close> values, sequences of code points. A character is
  modelled by \<^typ>\<open>char\<close>, read as a code point in the range U+0000 to U+00FF, and a
  \<^verbatim>\<open>str\<close> by \<^typ>\<open>string\<close>; texts with code points beyond that range are outside
  the model. The three character classes the pattern of \<^verbatim>\<open>doi.py\<close> uses are those
  of Python's \<^verbatim>\<open>re\<close> module for \<^verbatim>\<open>str\<close> patterns, restricted to this range:
  \<^verbatim>\<open>[0-9]\<close> is the ten ASCII digits, \<^verbatim>\<open>\s\<close> is \<^verbatim>\<open>str.isspace\<close>, and a word
  character (for \<^verbatim>\<open>\b\<close>) is \<^verbatim>\<open>str.isalnum\<close> or the underscore.
\<close>

definition is_digit :: "char \<Rightarrow> bool" where
  "is_digit c = (let n = (of_char c :: nat) in 48 \<le> n \<and> n \<le> 57)"

definition is_space :: "char \<Rightarrow> bool" where
  "is_space c = (let n = (of_char c :: nat) in
     (9 \<le> n \<and> n \<le> 13) \<or> (28 \<le> n \<and> n \<le> 32) \<or> n = 133 \<or> n = 160)"

definition is_word :: "char \<Rightarrow> bool" where
  "is_word c = (let n = (of_char c :: nat) in
     (48 \<le> n \<and> n \<le> 57) \<or> (65 \<le> n \<and> n \<le> 90) \<or> n = 95 \<or> (97 \<le> n \<and> n \<le> 122) \<or>
     n = 170 \<or> n = 178 \<or> n = 179 \<or> n = 181 \<or> n = 185 \<or> n = 186 \<or>
     (188 \<le> n \<and> n \<le> 190) \<or> (192 \<le> n \<and> n \<le> 214) \<or> (216 \<le> n \<and> n \<le> 246) \<or>
     (248 \<le> n \<and> n \<le> 255))"

section \<open>Regular expressions with backtracking\<close>

text \<open>
  The constructs that occur in \<^verbatim>\<open>REGEX\<close>: a single character taken from a class
  (a literal, a bracket expression, \<^verbatim>\<open>\S\<close>), the word boundary \<^verbatim>\<open>\b\<close>, the negative
  lookahead \<^verbatim>\<open>(?!...)\<close>, concatenation, and the greedy repetition \<^verbatim>\<open>{n,}\<close>
  (\<^verbatim>\<open>*\<close> is \<^verbatim>\<open>{0,}\<close> and \<^verbatim>\<open>+\<close> is \<^verbatim>\<open>{1,}\<close>).
\<close>

datatype rx =
    Chr "char \<Rightarrow> bool"
  | Bnd
  | NLook rx
  | Seq rx rx
  | AtLeast nat rx

abbreviation Lit :: "char \<Rightarrow> rx" where
  "Lit c \<equiv> Chr (\<lambda>x. x = c)"

abbreviation OneOf :: "string \<Rightarrow> rx" where
  "OneOf cs \<equiv> Chr (\<lambda>x. x \<in> set cs)"

text \<open>
  A cursor is a position in the subject string: the character just before the position
  (\<open>None\<close> at the start of the string) and the rest of the string from the position on.
\<close>

type_synonym cursor = "char option \<times> string"

definition word_before :: "cursor \<Rightarrow> bool" where
  "word_before st = (case fst st of None \<Rightarrow> False | Some c \<Rightarrow> is_word c)"

definition word_after :: "cursor \<Rightarrow> bool" where
  "word_after st = (case snd st of [] \<Rightarrow> False | c # _ \<Rightarrow> is_word c)"

fun rsize :: "rx \<Rightarrow> nat" where
  "rsize (Chr P) = 0"
| "rsize Bnd = 0"
| "rsize (NLook r) = Suc (rsize r)"
| "rsize (Seq r1 r2) = Suc (rsize r1 + rsize r2)"
| "rsize (AtLeast n r) = Suc (n + rsize r)"

text \<open>
  \<open>ms r st\<close> lists the cursors at which a match of \<open>r\<close> that starts at \<open>st\<close> can end, in
  the order in which the backtracking engine of \<^verbatim>\<open>re\<close> tries them: the head of the
  list is the match the engine reports, the later elements are what it falls back to when
  the rest of the pattern fails. A greedy repetition tries one more round of its body
  before it tries to stop; a round that consumes nothing is not repeated.
\<close>

function ms :: "rx \<Rightarrow> cursor \<Rightarrow> cursor list" where
  "ms (Chr P) st = (case snd st of [] \<Rightarrow> [] | c # cs \<Rightarrow> if P c then [(Some c, cs)] else [])"
| "ms Bnd st = (if word_before st \<noteq> word_after st then [st] else [])"
| "ms (NLook r) st = (if ms r st = [] then [st] else [])"
| "ms (Seq r1 r2) st = concat (map (ms r2) (ms r1 st))"
| "ms (AtLeast (Suc n) r) st = concat (map (ms (AtLeast n r)) (ms r st))"
| "ms (AtLeast 0 r) st =
     concat (map (\<lambda>st'. if length (snd st') < length (snd st) then ms (AtLeast 0 r) st' else [])
                 (ms r st)) @ [st]"
  by pat_completeness auto
termination
  by (relation "inv_image (less_than <*lex*> less_than) (\<lambda>(r, st). (rsize r, length (snd st)))")
     auto

section \<open>The DOI functions of \<^verbatim>\<open>doi.py\<close>\<close>

text \<open>
  \<^verbatim>\<open>REGEX = re.compile(r"\b(10[.][0-9]{4,}(?:[.][0-9]+)*/(?:(?![\"&\'])\S)+)\b", re.IGNORECASE)\<close>

  The only capturing group spans everything between the two zero-width \<^verbatim>\<open>\b\<close>, so
  group 1 and the whole match are the same text. \<^verbatim>\<open>re.IGNORECASE\<close> changes nothing
  here: no literal and no member of a bracket expression of the pattern is a cased
  character, so characters are compared exactly.
\<close>

definition REGEX :: rx where
  "REGEX =
     Seq Bnd
    (Seq (Seq (Lit CHR ''1'')
         (Seq (Lit CHR ''0'')
         (Seq (OneOf ''.'')
         (Seq (AtLeast 4 (Chr is_digit))
         (Seq (AtLeast 0 (Seq (OneOf ''.'') (AtLeast 1 (Chr is_digit))))
         (Seq (Lit CHR ''/'')
              (AtLeast 1 (Seq (NLook (OneOf [CHR 0x22, CHR ''&'', CHR 0x27]))
                              (Chr (\<lambda>c. \<not> is_space c))))))))))
          Bnd)"

text \<open>
  \<^verbatim>\<open>REGEX.match(s)\<close>: the match that starts at the beginning of \<open>s\<close>, if there is one;
  the value is \<^verbatim>\<open>match.group(0)\<close>, the matched text.
\<close>

definition regex_match :: "string \<Rightarrow> string option" where
  "regex_match s = (case ms REGEX (None, s) of [] \<Rightarrow> None
                    | (q, rest) # _ \<Rightarrow> Some (take (length s - length rest) s))"

definition is_valid :: "string \<Rightarrow> bool" where
  "is_valid doi = (case regex_match doi of None \<Rightarrow> False | Some m \<Rightarrow> m = doi)"

text \<open>
  The scan behind \<^verbatim>\<open>REGEX.findall(text)\<close>: at the current position the engine tries a
  match; on failure the scan moves one character on, on success it records the start
  offset and the text of group 1 and goes on from the end of the match. The branch for an
  empty match only keeps the scan moving; \<^verbatim>\<open>REGEX\<close> never matches the empty string.
\<close>

function finditer_from :: "nat \<Rightarrow> cursor \<Rightarrow> (nat \<times> string) list" where
  "finditer_from pos st =
     (case ms REGEX st of
        (q, rest) # _ \<Rightarrow>
          if length rest < length (snd st)
          then (pos, take (length (snd st) - length rest) (snd st))
                 # finditer_from (pos + (length (snd st) - length rest)) (q, rest)
          else (pos, []) # (case snd st of [] \<Rightarrow> []
                            | c # cs \<Rightarrow> finditer_from (Suc pos) (Some c, cs))
      | [] \<Rightarrow> (case snd st of [] \<Rightarrow> [] | c # cs \<Rightarrow> finditer_from (Suc pos) (Some c, cs)))"
  by pat_completeness auto
termination
  by (relation "measure (\<lambda>(pos, st). length (snd st))") auto

definition finditer :: "string \<Rightarrow> (nat \<times> string) list" where
  "finditer text = finditer_from 0 (None, text)"

definition findall :: "string \<Rightarrow> string list" where
  "findall text = map snd (finditer text)"

text \<open>
  Modelled from the spec: \<^verbatim>\<open>tools.remove_duplicates\<close>, which \<^verbatim>\<open>extract_from_text\<close>
  calls, is not among the sources. The specification says of the extraction that the
  occurrences are returned deduplicated while preserving first-occurrence order.
\<close>

fun remove_duplicates :: "'a list \<Rightarrow> 'a list" where
  "remove_duplicates [] = []"
| "remove_duplicates (x # xs) = x # remove_duplicates (filter (\<lambda>y. y \<noteq> x) xs)"

definition extract_from_text :: "string \<Rightarrow> string list" where
  "extract_from_text text = remove_duplicates (findall text)"

text \<open>
  \<^verbatim>\<open>to_url\<close> and \<^verbatim>\<open>to_canonical\<close> take a list or a single value
  (\<^verbatim>\<open>isinstance(dois, list)\<close>).
\<close>

datatype 'a arg = One 'a | Many "'a list"

definition dx_url :: "string \<Rightarrow> string" where
  "dx_url doi = ''http://dx.doi.org/'' @ doi"

fun to_url :: "string arg \<Rightarrow> string arg" where
  "to_url (Many dois) = Many (map dx_url dois)"
| "to_url (One dois) = One (dx_url dois)"

fun first_item :: "'b list \<Rightarrow> 'b option" where
  "first_item [] = None"
| "first_item (y # _) = Some y"

fun firsts :: "('a \<Rightarrow> 'b list) \<Rightarrow> 'a list \<Rightarrow> 'b list option" where
  "firsts f [] = Some []"
| "firsts f (x # xs) =
     (case first_item (f x) of None \<Rightarrow> None
      | Some y \<Rightarrow> (case firsts f xs of None \<Rightarrow> None | Some ys \<Rightarrow> Some (y # ys)))"

text \<open>
  Modelled from the spec: \<^verbatim>\<open>tools.map_or_apply\<close>, the whole body of
  \<^verbatim>\<open>to_canonical\<close>, is not among the sources. The specification says that
  \<^verbatim>\<open>to_canonical\<close> runs extraction over the URL string(s) to recover the identifier,
  keeps the shape (scalar in, scalar out; sequence in, sequence out), and returns
  \<^verbatim>\<open>None\<close>, not an empty sequence and not an error, if nothing is extracted; the
  doctests of \<^verbatim>\<open>to_canonical\<close> give one identifier per URL and \<^verbatim>\<open>None\<close> for
  \<^verbatim>\<open>'aaaa'\<close> and for \<^verbatim>\<open>['aaaa']\<close>. The specification does not say what a list
  yields in which some URLs hold an identifier and others none; the model gives
  \<^verbatim>\<open>None\<close> there.
\<close>

fun map_or_apply :: "('a \<Rightarrow> 'b list) \<Rightarrow> 'a arg \<Rightarrow> 'b arg option" where
  "map_or_apply f (Many xs) = (if xs = [] then None else map_option Many (firsts f xs))"
| "map_or_apply f (One x) = map_option One (first_item (f x))"

definition to_canonical :: "string arg \<Rightarrow> string arg option" where
  "to_canonical urls = map_or_apply extract_from_text urls"

section \<open>The document scanner of \<^verbatim>\<open>papers/identifiers.py\<close>\<close>

text \<open>
  The world outside \<^verbatim>\<open>find_identifiers\<close> is a parameter. A line read from the
  standard output of the converter is a byte string that either has a UTF-8 decoding or
  makes \<^verbatim>\<open>decode\<close> raise. A running process is the list of what
  \<^verbatim>\<open>totext.stdout.readlines()\<close> returns in the successive rounds of the loop for
  which \<^verbatim>\<open>totext.poll()\<close> is still \<^verbatim>\<open>None\<close>; after the last element of the list
  \<^verbatim>\<open>poll\<close> reports the exit, so the process is taken to exit after finitely many
  rounds. The operating system maps an argument vector to the process it starts, or to
  nothing when \<^verbatim>\<open>subprocess.Popen\<close> raises \<^verbatim>\<open>OSError\<close>.
\<close>

datatype raw_line = Undecodable | Utf8 string

type_synonym process = "raw_line list list"

text \<open>
  \<^verbatim>\<open>totext.stdout.readlines()\<close> is called without a size hint, so it reads the pipe to
  its end: the first call returns only when the converter has closed its output, with
  every line the converter wrote, and each later call returns no line. The processes that
  the loop can really meet are therefore the empty one (the converter has exited before
  the first \<^verbatim>\<open>poll()\<close>) and the ones below: the whole output in the first round,
  then \<open>k\<close> rounds without a line until \<^verbatim>\<open>poll()\<close> reports the exit. The lists
  with lines in a later round are more than the loop can meet; what holds for every list
  holds for these.
\<close>

definition readlines_rounds :: "raw_line list \<Rightarrow> nat \<Rightarrow> process" where
  "readlines_rounds output k = output # replicate k []"

datatype error = OSError | UnicodeDecodeError

text \<open>
  What a run leaves behind, in order: the process it spawned, the value of
  \<^verbatim>\<open>extract_full\<close> in each round of the loop, and the call of
  \<^verbatim>\<open>totext.terminate()\<close>.
\<close>

datatype event = Spawned "string list" | Scanned string | Terminated

definition endswith :: "string \<Rightarrow> string \<Rightarrow> bool" where
  "endswith s suf = (length suf \<le> length s \<and> drop (length s - length suf) s = suf)"

definition strip :: "string \<Rightarrow> string" where
  "strip s = rev (dropWhile is_space (rev (dropWhile is_space s)))"

fun join :: "string \<Rightarrow> string list \<Rightarrow> string" where
  "join sep [] = []"
| "join sep [x] = x"
| "join sep (x # y # ys) = x @ sep @ join sep (y # ys)"

text \<open>\<^verbatim>\<open>[i.decode("utf-8").strip() for i in lines]\<close>: the first undecodable line raises.\<close>

fun decode_strip :: "raw_line list \<Rightarrow> string list option" where
  "decode_strip [] = Some []"
| "decode_strip (Undecodable # ls) = None"
| "decode_strip (Utf8 s # ls) =
     (case decode_strip ls of None \<Rightarrow> None | Some ts \<Rightarrow> Some (strip s # ts))"

definition buffer_of :: "raw_line list \<Rightarrow> string option" where
  "buffer_of lines = map_option (join '' '') (decode_strip lines)"

text \<open>
  Modelled from the spec: the list \<^verbatim>\<open>__valid_identifiers__\<close> starts in
  \<^verbatim>\<open>libbmc/__init__.py\<close>, which is not among the sources; \<^verbatim>\<open>doi.py\<close> appends
  \<^verbatim>\<open>"doi"\<close> to it. The specification says that the registry holds presently one
  scheme, DOI.
\<close>

definition valid_identifiers :: "string list" where
  "valid_identifiers = [''doi'']"

text \<open>\<^verbatim>\<open>sys.modules.get("libbmc.%s" % (identifier,), None)\<close>, as far as
  \<^verbatim>\<open>extract_from_text\<close> of the module goes.\<close>

definition modules :: "string \<Rightarrow> (string \<Rightarrow> string list) option" where
  "modules name = (if name = ''libbmc.doi'' then Some extract_from_text else None)"

text \<open>The loop over the identifier types, for one value of \<^verbatim>\<open>extract_full\<close>.\<close>

fun scan_identifiers :: "string list \<Rightarrow> string \<Rightarrow> (string \<times> string) option" where
  "scan_identifiers [] extract_full = None"
| "scan_identifiers (identifier # ids) extract_full =
     (case modules (''libbmc.'' @ identifier) of
        None \<Rightarrow> scan_identifiers ids extract_full
      | Some extract \<Rightarrow>
          (case extract extract_full of
             [] \<Rightarrow> scan_identifiers ids extract_full
           | found # _ \<Rightarrow> Some (identifier, found)))"

text \<open>The \<^verbatim>\<open>while totext.poll() is None\<close> loop.\<close>

fun poll_loop :: "process \<Rightarrow> (error + string option \<times> string option) \<times> event list" where
  "poll_loop [] = (Inr (None, None), [])"
| "poll_loop (lines # later) =
     (case buffer_of lines of
        None \<Rightarrow> (Inl UnicodeDecodeError, [])
      | Some extract_full \<Rightarrow>
          (case scan_identifiers valid_identifiers extract_full of
             Some (identifier, found) \<Rightarrow>
               (Inr (Some identifier, Some found), [Scanned extract_full, Terminated])
           | None \<Rightarrow>
               (case poll_loop later of (r, evs) \<Rightarrow> (r, Scanned extract_full # evs))))"

definition popen_loop ::
  "(string list \<Rightarrow> process option) \<Rightarrow> string list
     \<Rightarrow> (error + string option \<times> string option) \<times> event list" where
  "popen_loop os argv =
     (case os argv of
        None \<Rightarrow> (Inl OSError, [])
      | Some totext \<Rightarrow> (case poll_loop totext of (r, evs) \<Rightarrow> (r, Spawned argv # evs)))"

definition find_identifiers ::
  "(string list \<Rightarrow> process option) \<Rightarrow> string
     \<Rightarrow> (error + string option \<times> string option) \<times> event list" where
  "find_identifiers os src =
     (if endswith src ''.pdf'' then popen_loop os [''pdftotext'', src, ''-'']
      else if endswith src ''.djvu'' then popen_loop os [''djvutxt'', src]
      else (Inr (None, None), []))"

text \<open>Two operating systems for concrete runs: one on which no converter can be started,
  and one on which every command starts the given process.\<close>

definition no_converter :: "string list \<Rightarrow> process option" where
  "no_converter argv = None"

definition runs :: "process \<Rightarrow> string list \<Rightarrow> process option" where
  "runs totext argv = Some totext"

section \<open>Notions used in the statements and proofs\<close>

text \<open>The grammar matches \<open>s\<close> anchored at both ends: some way of matching \<^verbatim>\<open>REGEX\<close>
  from the start of \<open>s\<close>, the preferred one or one reached by backtracking, ends at the
  end of \<open>s\<close>.\<close>

definition anchored_match :: "string \<Rightarrow> bool" where
  "anchored_match s = list_ex (\<lambda>st. snd st = []) (ms REGEX (None, s))"

text \<open>The start offset of the first match of the scan whose text is \<open>m\<close>.\<close>

definition first_start_in :: "(nat \<times> string) list \<Rightarrow> string \<Rightarrow> nat" where
  "first_start_in ps m = (case find (\<lambda>e. snd e = m) ps of Some e \<Rightarrow> fst e | None \<Rightarrow> 0)"

definition first_start :: "string \<Rightarrow> string \<Rightarrow> nat" where
  "first_start text m = first_start_in (finditer text) m"

text \<open>The values of \<^verbatim>\<open>extract_full\<close> that a run has scanned, in order.\<close>

fun scanned :: "event list \<Rightarrow> string option list" where
  "scanned [] = []"
| "scanned (Scanned b # evs) = Some b # scanned evs"
| "scanned (e # evs) = scanned evs"

text \<open>A direct description of the strings that \<^verbatim>\<open>REGEX\<close> accepts: \<open>prefix_rest\<close>
  reads \<^verbatim>\<open>10.\<close>, at least four digits, any number of groups of a dot and digits, and
  the slash, and returns what follows; \<open>sfx\<close> is a character the suffix may contain.\<close>

definition lastp :: "char option \<Rightarrow> string \<Rightarrow> char option" where
  "lastp p xs = (if xs = [] then p else Some (last xs))"

function groups :: "string \<Rightarrow> string option" where
  "groups [] = None"
| "groups (c # cs) =
     (if c = CHR ''/'' then Some cs
      else if c = CHR ''.'' \<and> takeWhile is_digit cs \<noteq> [] then groups (dropWhile is_digit cs)
      else None)"
  by pat_completeness auto
termination
  by (relation "measure length") (auto simp: length_dropWhile_le less_Suc_eq_le)

definition prefix_rest :: "string \<Rightarrow> string option" where
  "prefix_rest s =
     (case s of
        c1 # c2 # c3 # cs \<Rightarrow>
          if c1 = CHR ''1'' \<and> c2 = CHR ''0'' \<and> c3 = CHR ''.'' \<and> 4 \<le> length (takeWhile is_digit cs)
          then groups (dropWhile is_digit cs) else None
      | _ \<Rightarrow> None)"

abbreviation GRP :: rx where
  "GRP \<equiv> AtLeast 0 (Seq (OneOf ''.'') (AtLeast 1 (Chr is_digit)))"

definition sfx :: "char \<Rightarrow> bool" where
  "sfx c = (c \<notin> set [CHR 0x22, CHR ''&'', CHR 0x27] \<and> \<not> is_space c)"

definition bnd :: "cursor \<Rightarrow> bool" where
  "bnd st = (word_before st \<noteq> word_after st)"

definition doi_shape :: "string \<Rightarrow> bool" where
  "doi_shape s = (case prefix_rest s of None \<Rightarrow> False
                  | Some r \<Rightarrow> r \<noteq> [] \<and> list_all sfx r \<and> is_word (last r))"

section \<open>The engine on \<^verbatim>\<open>REGEX\<close>\<close>

declare ms.simps(6) [simp del]

lemma concat_map_concat:
  "concat (map f (concat xss)) = concat (map (\<lambda>xs. concat (map f xs)) xss)"
  by (induction xss) simp_all

lemma ms_Seq_fun: "ms (Seq a b) = (\<lambda>st. concat (map (ms b) (ms a st)))"
  by (rule ext) simp

lemma ms_Seq_assoc: "ms (Seq (Seq a b) c) st = ms (Seq a (Seq b c)) st"
  by (simp add: concat_map_concat ms_Seq_fun comp_def)

lemma ms_Seq_Bnd: "ms (Seq Bnd K) st = (if word_before st \<noteq> word_after st then ms K st else [])"
  by simp

lemma ms_Seq_Chr:
  "ms (Seq (Chr P) K) (p, cs) =
     (case cs of [] \<Rightarrow> [] | c # cs' \<Rightarrow> if P c then ms K (Some c, cs') else [])"
  by (simp split: list.split)

lemma ms_Seq_AtLeast_Suc:
  "ms (Seq (AtLeast (Suc n) r) K) st = ms (Seq r (Seq (AtLeast n r) K)) st"
  by (simp add: concat_map_concat ms_Seq_fun comp_def)

lemma ms_Seq_Star:
  "ms (Seq (AtLeast 0 r) K) st =
     concat (map (\<lambda>st'. if length (snd st') < length (snd st)
                          then ms (Seq (AtLeast 0 r) K) st' else []) (ms r st)) @ ms K st"
proof -
  have "concat (map (ms K) (concat (map (\<lambda>st'. if length (snd st') < length (snd st)
            then ms (AtLeast 0 r) st' else []) (ms r st))))
      = concat (map (\<lambda>st'. if length (snd st') < length (snd st)
                          then ms (Seq (AtLeast 0 r) K) st' else []) (ms r st))"
    unfolding concat_map_concat map_map comp_def
    by (rule arg_cong [where f = concat], rule map_cong) auto
  then show ?thesis by (simp add: ms.simps(6))
qed

lemma star_Chr:
  "ms (AtLeast 0 (Chr P)) (p, cs) =
     (case cs of [] \<Rightarrow> [] | c # cs' \<Rightarrow> if P c then ms (AtLeast 0 (Chr P)) (Some c, cs') else [])
     @ [(p, cs)]"
  by (subst ms.simps(6)) (simp split: list.split)

lemma atleast_Suc_Chr:
  "ms (AtLeast (Suc n) (Chr P)) (p, cs) =
     (case cs of [] \<Rightarrow> [] | c # cs' \<Rightarrow> if P c then ms (AtLeast n (Chr P)) (Some c, cs') else [])"
  by (simp split: list.split)

lemma star_Chr_reject:
  assumes rej: "\<And>q c cs. P c \<Longrightarrow> F (q, c # cs) = []"
  shows "concat (map F (ms (AtLeast 0 (Chr P)) (p, cs)))
           = F (lastp p (takeWhile P cs), dropWhile P cs)"
proof (induction cs arbitrary: p)
  case Nil
  show ?case by (subst star_Chr) (simp add: lastp_def)
next
  case (Cons c cs)
  show ?case
  proof (cases "P c")
    case True
    have "concat (map F (ms (AtLeast 0 (Chr P)) (p, c # cs)))
          = concat (map F (ms (AtLeast 0 (Chr P)) (Some c, cs))) @ F (p, c # cs)"
      using True by (subst star_Chr) simp
    also have "\<dots> = F (lastp (Some c) (takeWhile P cs), dropWhile P cs)"
      using Cons.IH [of "Some c"] rej [OF True] by simp
    finally show ?thesis using True by (simp add: lastp_def)
  next
    case False
    then show ?thesis by (subst star_Chr) (simp add: lastp_def)
  qed
qed

lemma is_digit_not_dot: "is_digit c \<Longrightarrow> c \<noteq> CHR ''.''"
  by (auto simp: is_digit_def)

lemma is_digit_not_slash: "is_digit c \<Longrightarrow> c \<noteq> CHR ''/''"
  by (auto simp: is_digit_def)

lemma groups_reject:
  "is_digit c \<Longrightarrow> ms (Seq GRP (Seq (Lit CHR ''/'') K)) (q, c # cs) = []"
  by (subst ms_Seq_Star)
     (auto simp: atleast_Suc_Chr ms_Seq_Chr is_digit_not_dot is_digit_not_slash
           simp del: ms.simps split: list.split)

lemma groups_ms:
  "ms (Seq GRP (Seq (Lit CHR ''/'') K)) (p, cs) =
     (case groups cs of None \<Rightarrow> [] | Some r \<Rightarrow> ms K (Some CHR ''/'', r))"
proof (induction cs arbitrary: p rule: groups.induct)
  case 1
  show ?case
    by (subst ms_Seq_Star) (simp add: atleast_Suc_Chr ms_Seq_Chr del: ms.simps)
next
  case (2 c cs)
  let ?R = "Seq GRP (Seq (Lit CHR ''/'') K)"
  show ?case
  proof (cases "c = CHR ''/''")
    case True
    then show ?thesis
      by (subst ms_Seq_Star) (simp add: atleast_Suc_Chr ms_Seq_Chr del: ms.simps split: list.split)
  next
    case ns: False
    show ?thesis
    proof (cases "c = CHR ''.'' \<and> takeWhile is_digit cs \<noteq> []")
      case True
      then obtain d cs' where cs: "cs = d # cs'" and d: "is_digit d"
        by (cases cs) (auto split: if_splits)
      let ?F = "\<lambda>st'. if length (snd st') < length (snd (p, c # cs)) then ms ?R st' else []"
      have rej: "\<And>q x xs. is_digit x \<Longrightarrow> ?F (q, x # xs) = []"
        using groups_reject by (simp del: ms.simps)
      have "ms ?R (p, c # cs) = concat (map ?F (ms (AtLeast 0 (Chr is_digit)) (Some d, cs')))"
        using True cs d ns
        by (subst ms_Seq_Star) (simp add: atleast_Suc_Chr ms_Seq_Chr del: ms.simps)
      also have "\<dots> = ?F (lastp (Some d) (takeWhile is_digit cs'), dropWhile is_digit cs')"
        by (rule star_Chr_reject [where F = ?F, OF rej])
      also have "\<dots> = ms ?R (lastp (Some d) (takeWhile is_digit cs'), dropWhile is_digit cs')"
        using cs by (simp add: length_dropWhile_le less_Suc_eq_le le_SucI del: ms.simps)
      also have "\<dots> = (case groups (dropWhile is_digit cs) of None \<Rightarrow> []
                        | Some r \<Rightarrow> ms K (Some CHR ''/'', r))"
        using "2.IH" [OF ns True] cs d by simp
      finally show ?thesis using True ns by simp
    next
      case False
      then show ?thesis using ns
        by (subst ms_Seq_Star)
           (auto simp: atleast_Suc_Chr ms_Seq_Chr simp del: ms.simps split: list.split)
    qed
  qed
qed

lemma atleast_Chr_reject:
  assumes rej: "\<And>q c cs. P c \<Longrightarrow> F (q, c # cs) = []"
  shows "concat (map F (ms (AtLeast n (Chr P)) (p, cs)))
           = (if n \<le> length (takeWhile P cs)
              then F (lastp p (takeWhile P cs), dropWhile P cs) else [])"
proof (induction n arbitrary: p cs)
  case 0
  show ?case using star_Chr_reject [of P F, OF rej] by simp
next
  case (Suc n)
  show ?case
  proof (cases cs)
    case Nil
    then show ?thesis by (simp add: atleast_Suc_Chr del: ms.simps)
  next
    case (Cons c cs')
    show ?thesis
    proof (cases "P c")
      case True
      have "concat (map F (ms (AtLeast (Suc n) (Chr P)) (p, c # cs')))
              = concat (map F (ms (AtLeast n (Chr P)) (Some c, cs')))"
        using True by (simp add: atleast_Suc_Chr del: ms.simps)
      also have "\<dots> = (if n \<le> length (takeWhile P cs')
              then F (lastp (Some c) (takeWhile P cs'), dropWhile P cs') else [])"
        by (rule Suc.IH)
      also have "\<dots> = (if Suc n \<le> length (takeWhile P (c # cs'))
              then F (lastp p (takeWhile P (c # cs')), dropWhile P (c # cs')) else [])"
        using True by (simp add: lastp_def)
      finally show ?thesis using Cons by simp
    next
      case False
      then show ?thesis using Cons by (simp add: atleast_Suc_Chr del: ms.simps)
    qed
  qed
qed

lemma body_ms:
  "ms (Seq (NLook (OneOf [CHR 0x22, CHR ''&'', CHR 0x27])) (Chr (\<lambda>c. \<not> is_space c))) st
     = ms (Chr sfx) st"
  by (cases st) (auto simp: sfx_def split: list.split)

lemma star_cong:
  assumes eq: "\<And>st. ms r st = ms r' st"
  shows "ms (AtLeast 0 r) st = ms (AtLeast 0 r') st"
proof (induction "length (snd st)" arbitrary: st rule: less_induct)
  case less
  let ?A = "\<lambda>st'. if length (snd st') < length (snd st) then ms (AtLeast 0 r) st' else []"
  let ?B = "\<lambda>st'. if length (snd st') < length (snd st) then ms (AtLeast 0 r') st' else []"
  have m: "map ?A (ms r' st) = map ?B (ms r' st)"
    by (rule map_cong) (auto simp: less)
  have "ms (AtLeast 0 r) st = concat (map ?A (ms r st)) @ [st]"
    by (rule ms.simps(6))
  also have "\<dots> = concat (map ?B (ms r' st)) @ [st]"
    by (simp only: eq m)
  also have "\<dots> = ms (AtLeast 0 r') st"
    by (rule ms.simps(6) [symmetric])
  finally show ?case .
qed

lemma atleast_cong:
  assumes eq: "\<And>st. ms r st = ms r' st"
  shows "ms (AtLeast n r) st = ms (AtLeast n r') st"
proof (induction n arbitrary: st)
  case 0
  show ?case by (rule star_cong [OF eq])
next
  case (Suc n)
  have "ms (AtLeast n r) = ms (AtLeast n r')" by (rule ext) (rule Suc)
  then show ?case by (simp add: eq)
qed

lemma ms_Seq_assoc_fun: "ms (Seq (Seq a b) c) = ms (Seq a (Seq b c))"
  by (rule ext) (rule ms_Seq_assoc)

lemma seq_cong_fun: "ms b = ms b' \<Longrightarrow> ms (Seq a b) = ms (Seq a b')"
  by (rule ext) simp

lemma concat_map_guard: "concat (map (\<lambda>x. if Q x then [x] else []) xs) = filter Q xs"
  by (induction xs) simp_all

lemma ms_Seq_Bnd_end: "ms (Seq r Bnd) st = filter bnd (ms r st)"
proof -
  have "ms Bnd = (\<lambda>x. if bnd x then [x] else [])"
    by (rule ext) (simp add: bnd_def)
  then show ?thesis by (simp add: concat_map_guard)
qed

lemma REGEX_ms:
  "ms REGEX (p, cs) =
     (if bnd (p, cs)
      then (case prefix_rest cs of
              None \<Rightarrow> []
            | Some r \<Rightarrow> (case r of [] \<Rightarrow> []
                         | c # r' \<Rightarrow> if sfx c
                                      then filter bnd (ms (AtLeast 0 (Chr sfx)) (Some c, r'))
                                      else []))
      else [])"
proof -
  let ?T = "Seq (AtLeast 1 (Seq (NLook (OneOf [CHR 0x22, CHR ''&'', CHR 0x27]))
                                (Chr (\<lambda>c. \<not> is_space c)))) Bnd"
  let ?K = "Seq GRP (Seq (Lit CHR ''/'') ?T)"
  have tail: "ms ?T (q, r) = (case r of [] \<Rightarrow> []
                         | c # r' \<Rightarrow> if sfx c
                                      then filter bnd (ms (AtLeast 0 (Chr sfx)) (Some c, r'))
                                      else [])" for q r
  proof -
    have "ms ?T (q, r) = filter bnd (ms (AtLeast 1 (Chr sfx)) (q, r))"
      unfolding ms_Seq_Bnd_end using atleast_cong [OF body_ms] by simp
    then show ?thesis by (cases r) (simp_all add: atleast_Suc_Chr del: ms.simps)
  qed
  have digits: "ms (Seq (AtLeast 4 (Chr is_digit)) ?K) (q, xs) =
      (if 4 \<le> length (takeWhile is_digit xs)
       then ms ?K (lastp q (takeWhile is_digit xs), dropWhile is_digit xs) else [])" for q xs
  proof -
    have "ms (Seq (AtLeast 4 (Chr is_digit)) ?K) (q, xs)
            = concat (map (ms ?K) (ms (AtLeast 4 (Chr is_digit)) (q, xs)))"
      by simp
    also have "\<dots> = (if 4 \<le> length (takeWhile is_digit xs)
       then ms ?K (lastp q (takeWhile is_digit xs), dropWhile is_digit xs) else [])"
      by (rule atleast_Chr_reject) (rule groups_reject)
    finally show ?thesis .
  qed
  have "ms REGEX (p, cs) =
     ms (Seq Bnd (Seq (Lit CHR ''1'') (Seq (Lit CHR ''0'') (Seq (OneOf ''.'')
          (Seq (AtLeast 4 (Chr is_digit)) ?K))))) (p, cs)"
    unfolding REGEX_def
    by (rule fun_cong [where x = "(p, cs)"], rule seq_cong_fun)
       ((rule trans [OF ms_Seq_assoc_fun], rule seq_cong_fun)+, rule refl)
  also have "\<dots> = (if bnd (p, cs)
      then (case prefix_rest cs of None \<Rightarrow> [] | Some r \<Rightarrow> ms ?T (Some CHR ''/'', r))
      else [])"
    unfolding ms_Seq_Bnd ms_Seq_Chr digits groups_ms
    by (auto simp: prefix_rest_def bnd_def split: list.split)
  finally show ?thesis by (simp only: tail)
qed

lemma is_word_sfx: "is_word c \<Longrightarrow> sfx c"
  by (auto simp: is_word_def sfx_def is_space_def Let_def)

lemma is_digit_word: "is_digit c \<Longrightarrow> is_word c"
  by (auto simp: is_word_def is_digit_def Let_def)

lemma star_Chr_elem:
  "(q, rest) \<in> set (ms (AtLeast 0 (Chr P)) (p, cs)) \<Longrightarrow>
     \<exists>m. cs = m @ rest \<and> (\<forall>x\<in>set m. P x) \<and> q = lastp p m"
proof (induction cs arbitrary: p)
  case Nil
  then show ?case by (subst (asm) star_Chr) (simp add: lastp_def)
next
  case (Cons c cs)
  from Cons.prems have "(P c \<and> (q, rest) \<in> set (ms (AtLeast 0 (Chr P)) (Some c, cs)))
                        \<or> (q, rest) = (p, c # cs)"
    by (subst (asm) star_Chr) (auto split: if_splits)
  then show ?case
  proof
    assume a: "P c \<and> (q, rest) \<in> set (ms (AtLeast 0 (Chr P)) (Some c, cs))"
    then obtain m where m: "cs = m @ rest" "\<forall>x\<in>set m. P x" "q = lastp (Some c) m"
      using Cons.IH by blast
    then have "c # cs = (c # m) @ rest \<and> (\<forall>x\<in>set (c # m). P x) \<and> q = lastp p (c # m)"
      using a by (simp add: lastp_def)
    then show ?thesis by blast
  next
    assume "(q, rest) = (p, c # cs)"
    then have "c # cs = [] @ rest \<and> (\<forall>x\<in>set []. P x) \<and> q = lastp p []"
      by (simp add: lastp_def)
    then show ?thesis by blast
  qed
qed

lemma star_Chr_all:
  "\<forall>x\<in>set cs. P x \<Longrightarrow> \<exists>L. ms (AtLeast 0 (Chr P)) (p, cs) = (lastp p cs, []) # L"
proof (induction cs arbitrary: p)
  case Nil
  show ?case by (subst star_Chr) (simp add: lastp_def)
next
  case (Cons c cs)
  then obtain L where "ms (AtLeast 0 (Chr P)) (Some c, cs) = (lastp (Some c) cs, []) # L"
    by fastforce
  then show ?case using Cons.prems
    by (subst star_Chr) (simp add: lastp_def)
qed

lemma star_sfx_some_bnd:
  "is_word c \<Longrightarrow> filter bnd (ms (AtLeast 0 (Chr sfx)) (Some c, cs)) \<noteq> []"
proof (induction cs arbitrary: c)
  case Nil
  then show ?case
    by (subst star_Chr) (simp add: bnd_def word_before_def word_after_def)
next
  case (Cons d cs)
  show ?case
  proof (cases "is_word d")
    case True
    then show ?thesis using Cons.IH [of d] is_word_sfx [of d]
      by (subst star_Chr) simp
  next
    case False
    then show ?thesis using Cons.prems
      by (subst star_Chr) (simp add: bnd_def word_before_def word_after_def)
  qed
qed

lemma star_sfx_first_bnd:
  "filter bnd (ms (AtLeast 0 (Chr sfx)) (p, cs)) = (q, rest) # L \<Longrightarrow> \<not> word_after (q, rest)"
proof (induction cs arbitrary: p L)
  case Nil
  then show ?case
    by (subst (asm) star_Chr) (auto simp: word_after_def split: if_splits)
next
  case (Cons c cs)
  show ?case
  proof (cases "sfx c")
    case True
    show ?thesis
    proof (cases "filter bnd (ms (AtLeast 0 (Chr sfx)) (Some c, cs))")
      case Nil
      then have nw: "\<not> is_word c" using star_sfx_some_bnd by blast
      from Cons.prems Nil True have "(q, rest) = (p, c # cs)"
        by (subst (asm) star_Chr) (auto split: if_splits)
      then show ?thesis using nw by (simp add: word_after_def)
    next
      case (Cons a L')
      with Cons.prems True have "filter bnd (ms (AtLeast 0 (Chr sfx)) (Some c, cs)) = (q, rest) # L'"
        by (subst (asm) star_Chr) simp
      then show ?thesis by (rule Cons.IH)
    qed
  next
    case False
    then have nw: "\<not> is_word c" using is_word_sfx by blast
    from Cons.prems False have "(q, rest) = (p, c # cs)"
      by (subst (asm) star_Chr) (auto split: if_splits)
    then show ?thesis using nw by (simp add: word_after_def)
  qed
qed

lemma takeWhile_stop:
  "\<forall>x\<in>set xs. P x \<Longrightarrow> ys \<noteq> [] \<Longrightarrow> \<not> P (hd ys) \<Longrightarrow> takeWhile P (xs @ ys @ zs) = xs"
  by (induction xs) (auto simp: neq_Nil_conv)

lemma dropWhile_stop:
  "\<forall>x\<in>set xs. P x \<Longrightarrow> ys \<noteq> [] \<Longrightarrow> \<not> P (hd ys) \<Longrightarrow> dropWhile P (xs @ ys @ zs) = ys @ zs"
  by (induction xs) (auto simp: neq_Nil_conv)

lemma is_digit_not_space: "is_digit c \<Longrightarrow> \<not> is_space c"
  by (auto simp: is_digit_def is_space_def Let_def)

lemma slash_class: "\<not> is_digit CHR ''/''" "\<not> is_space CHR ''/''" "\<not> is_word CHR ''/''"
  by (simp_all add: is_digit_def is_space_def is_word_def)

lemma dot_class: "\<not> is_digit CHR ''.''" "\<not> is_space CHR ''.''" "\<not> is_word CHR ''.''"
  by (simp_all add: is_digit_def is_space_def is_word_def)

lemma one_zero_class: "is_word CHR ''1''" "\<not> is_space CHR ''1''" "\<not> is_space CHR ''0''"
  by (simp_all add: is_space_def is_word_def)

lemma groups_split:
  "groups cs = Some r \<Longrightarrow>
     \<exists>pre. cs = pre @ r \<and> pre \<noteq> [] \<and> \<not> is_digit (hd pre) \<and> (\<forall>c\<in>set pre. \<not> is_space c)
           \<and> (\<forall>x. groups (pre @ x) = Some x)"
proof (induction cs rule: groups.induct)
  case 1
  then show ?case by simp
next
  case (2 c cs)
  show ?case
  proof (cases "c = CHR ''/''")
    case True
    with "2.prems" have "c # cs = [c] @ r \<and> [c] \<noteq> [] \<and> \<not> is_digit (hd [c])
        \<and> (\<forall>c\<in>set [c]. \<not> is_space c) \<and> (\<forall>x. groups ([c] @ x) = Some x)"
      by (simp add: slash_class)
    then show ?thesis by blast
  next
    case ns: False
    with "2.prems" have dot: "c = CHR ''.''" and tw: "takeWhile is_digit cs \<noteq> []"
      and g: "groups (dropWhile is_digit cs) = Some r"
      by (auto split: if_splits)
    from "2.IH" [OF ns _ g] dot tw obtain pre where
      pre: "dropWhile is_digit cs = pre @ r" "pre \<noteq> []" "\<not> is_digit (hd pre)"
           "\<forall>c\<in>set pre. \<not> is_space c" "\<forall>x. groups (pre @ x) = Some x"
      by blast
    let ?ds = "takeWhile is_digit cs"
    let ?pre = "c # ?ds @ pre"
    have ds: "\<forall>x\<in>set ?ds. is_digit x" by (auto dest: set_takeWhileD)
    have cs: "cs = ?ds @ pre @ r" using pre(1) takeWhile_dropWhile_id [of is_digit cs] by simp
    have "groups (?pre @ x) = Some x" for x
      using dot tw pre(5) takeWhile_stop [OF ds pre(2,3), of x] dropWhile_stop [OF ds pre(2,3), of x]
      by simp
    moreover have "\<forall>c\<in>set ?pre. \<not> is_space c"
      using dot ds pre(4) is_digit_not_space by (auto simp: dot_class)
    moreover have "c # cs = ?pre @ r" using cs by simp
    moreover have "\<not> is_digit (hd ?pre)" using dot by (simp add: dot_class)
    ultimately show ?thesis by blast
  qed
qed

lemma prefix_rest_split:
  assumes "prefix_rest cs = Some r"
  shows "\<exists>pre. cs = pre @ r \<and> pre \<noteq> [] \<and> hd pre = CHR ''1'' \<and> (\<forall>c\<in>set pre. \<not> is_space c)
           \<and> (\<forall>x. prefix_rest (pre @ x) = Some x)"
proof -
  from assms obtain xs where cs: "cs = CHR ''1'' # CHR ''0'' # CHR ''.'' # xs"
      and len: "4 \<le> length (takeWhile is_digit xs)"
      and g: "groups (dropWhile is_digit xs) = Some r"
    by (auto simp: prefix_rest_def split: list.splits if_splits)
  from groups_split [OF g] obtain pre where
      pre: "dropWhile is_digit xs = pre @ r" "pre \<noteq> []" "\<not> is_digit (hd pre)"
           "\<forall>c\<in>set pre. \<not> is_space c" "\<forall>x. groups (pre @ x) = Some x"
    by blast
  let ?ds = "takeWhile is_digit xs"
  let ?pre = "CHR ''1'' # CHR ''0'' # CHR ''.'' # ?ds @ pre"
  have ds: "\<forall>x\<in>set ?ds. is_digit x" by (auto dest: set_takeWhileD)
  have xs: "xs = ?ds @ pre @ r" using pre(1) takeWhile_dropWhile_id [of is_digit xs] by simp
  have "prefix_rest (?pre @ x) = Some x" for x
    using len pre(5) takeWhile_stop [OF ds pre(2,3), of x] dropWhile_stop [OF ds pre(2,3), of x]
    by (simp add: prefix_rest_def)
  moreover have "\<forall>c\<in>set ?pre. \<not> is_space c"
    using ds pre(4) is_digit_not_space by (auto simp: dot_class one_zero_class)
  moreover have "cs = ?pre @ r" using cs xs by simp
  ultimately show ?thesis by auto
qed

declare finditer_from.simps [simp del]

lemma REGEX_first:
  assumes "ms REGEX (p, cs) = (q, rest) # L"
  shows "\<exists>m. cs = m @ rest \<and> doi_shape m \<and> q = Some (last m)"
proof -
  from assms obtain c r' where b: "bnd (p, cs)" and pr: "prefix_rest cs = Some (c # r')"
      and c: "sfx c" and f: "filter bnd (ms (AtLeast 0 (Chr sfx)) (Some c, r')) = (q, rest) # L"
    by (auto simp: REGEX_ms split: if_splits option.splits list.splits)
  from f have "(q, rest) \<in> set (filter bnd (ms (AtLeast 0 (Chr sfx)) (Some c, r')))" by simp
  then have el: "(q, rest) \<in> set (ms (AtLeast 0 (Chr sfx)) (Some c, r'))" and bq: "bnd (q, rest)"
    by simp_all
  from star_Chr_elem [OF el] obtain m' where
    m': "r' = m' @ rest" "\<forall>x\<in>set m'. sfx x" "q = lastp (Some c) m'" by blast
  from star_sfx_first_bnd [OF f] bq have wb: "word_before (q, rest)" by (simp add: bnd_def)
  from prefix_rest_split [OF pr] obtain pre where
    pre: "cs = pre @ c # r'" "pre \<noteq> []" "\<forall>x. prefix_rest (pre @ x) = Some x" by blast
  let ?m = "pre @ c # m'"
  have q: "q = Some (last (c # m'))" using m'(3) by (simp add: lastp_def)
  have "is_word (last (c # m'))" using wb q by (simp add: word_before_def)
  then have "doi_shape ?m" using pre(3) c m'(2) by (simp add: doi_shape_def list_all_iff)
  moreover have "cs = ?m @ rest" using pre(1) m'(1) by simp
  moreover have "q = Some (last ?m)" using q by simp
  ultimately show ?thesis by blast
qed

lemma doi_shape_starts: "doi_shape s \<Longrightarrow> \<exists>t. s = CHR ''1'' # CHR ''0'' # CHR ''.'' # t"
  by (auto simp: doi_shape_def prefix_rest_def split: option.splits list.splits if_splits)

lemma doi_shape_match:
  assumes sh: "doi_shape s" and nb: "\<not> word_before (p, s)"
  shows "\<exists>L. ms REGEX (p, s) = (Some (last s), []) # L"
proof -
  from sh obtain r where r: "prefix_rest s = Some r" "r \<noteq> []" "list_all sfx r" "is_word (last r)"
    by (auto simp: doi_shape_def split: option.splits)
  then obtain c r' where pr: "prefix_rest s = Some (c # r')" and all: "list_all sfx (c # r')"
      and w: "is_word (last (c # r'))"
    by (cases r) auto
  from doi_shape_starts [OF sh] have "word_after (p, s)"
    by (auto simp: word_after_def one_zero_class)
  with nb have b: "bnd (p, s)" by (simp add: bnd_def)
  from prefix_rest_split [OF pr] obtain pre where pre: "s = pre @ c # r'" by blast
  then have last: "last s = last (c # r')" by simp
  from all have "\<forall>x\<in>set r'. sfx x" by (simp add: list_all_iff)
  from star_Chr_all [OF this] obtain L where
    L: "ms (AtLeast 0 (Chr sfx)) (Some c, r') = (lastp (Some c) r', []) # L" by blast
  have lp: "lastp (Some c) r' = Some (last (c # r'))" by (simp add: lastp_def)
  have "bnd (Some (last (c # r')), [])" using w by (simp add: bnd_def word_before_def word_after_def)
  then have "ms REGEX (p, s) = (Some (last s), []) # filter bnd L"
    using b pr all L lp last by (simp add: REGEX_ms)
  then show ?thesis by blast
qed

lemma is_valid_iff_shape: "is_valid s \<longleftrightarrow> doi_shape s"
proof
  assume v: "is_valid s"
  then obtain q rest L where m: "ms REGEX (None, s) = (q, rest) # L"
      and t: "take (length s - length rest) s = s"
    by (auto simp: is_valid_def regex_match_def split: list.splits option.splits)
  from REGEX_first [OF m] obtain x where x: "s = x @ rest" "doi_shape x" by blast
  with t have "rest = []" by (metis append_eq_conv_conj append_self_conv add_diff_cancel_right' length_append)
  with x show "doi_shape s" by simp
next
  assume sh: "doi_shape s"
  from doi_shape_match [OF sh, of None] obtain L where
    "ms REGEX (None, s) = (Some (last s), []) # L" by (auto simp: word_before_def)
  then show "is_valid s" by (simp add: is_valid_def regex_match_def)
qed

lemma ms_REGEX_Nil: "ms REGEX (p, []) = []"
  by (simp add: REGEX_ms prefix_rest_def)

lemma ms_REGEX_not_one: "c \<noteq> CHR ''1'' \<Longrightarrow> ms REGEX (p, c # cs) = []"
  by (simp add: REGEX_ms prefix_rest_def split: list.split)

lemma finditer_from_Nil: "finditer_from pos (p, []) = []"
  by (subst finditer_from.simps) (simp add: ms_REGEX_Nil)

lemma finditer_from_skip:
  "ms REGEX (p, c # cs) = [] \<Longrightarrow> finditer_from pos (p, c # cs) = finditer_from (Suc pos) (Some c, cs)"
  by (subst finditer_from.simps) simp

lemma finditer_from_hit:
  assumes "ms REGEX (p, cs) = (q, rest) # L"
  shows "\<exists>m. cs = m @ rest \<and> doi_shape m \<and> m \<noteq> [] \<and>
           finditer_from pos (p, cs) = (pos, m) # finditer_from (pos + length m) (q, rest)"
proof -
  from REGEX_first [OF assms] obtain m where m: "cs = m @ rest" "doi_shape m" by blast
  then have ne: "m \<noteq> []" using doi_shape_starts by blast
  have "finditer_from pos (p, cs) = (pos, m) # finditer_from (pos + length m) (q, rest)"
    using assms m(1) ne by (subst finditer_from.simps) simp
  with m ne show ?thesis by blast
qed

lemma finditer_from_cases:
  "(\<exists>c cs'. cs = c # cs' \<and> ms REGEX (p, cs) = [] \<and>
        finditer_from pos (p, cs) = finditer_from (Suc pos) (Some c, cs'))
   \<or> (\<exists>m q rest. cs = m @ rest \<and> doi_shape m \<and> m \<noteq> [] \<and>
        finditer_from pos (p, cs) = (pos, m) # finditer_from (pos + length m) (q, rest))
   \<or> (cs = [] \<and> finditer_from pos (p, cs) = [])"
proof (cases "ms REGEX (p, cs)")
  case Nil
  then show ?thesis
    using finditer_from_skip [of p _ _ pos] finditer_from_Nil [of pos p] by (cases cs) auto
next
  case (Cons a L)
  obtain q rest where "a = (q, rest)" by (cases a)
  with Cons have "ms REGEX (p, cs) = (q, rest) # L" by simp
  from finditer_from_hit [OF this, of pos] show ?thesis by blast
qed

lemma finditer_from_props:
  "(i, m) \<in> set (finditer_from pos (p, cs)) \<Longrightarrow>
     doi_shape m \<and> pos \<le> i \<and> (\<exists>a b. cs = a @ m @ b \<and> length a = i - pos)"
proof (induction "length cs" arbitrary: cs pos p rule: less_induct)
  case less
  consider
    (skip) c cs' where "cs = c # cs'"
        "finditer_from pos (p, cs) = finditer_from (Suc pos) (Some c, cs')"
  | (hit) x q rest where "cs = x @ rest" "doi_shape x" "x \<noteq> []"
        "finditer_from pos (p, cs) = (pos, x) # finditer_from (pos + length x) (q, rest)"
  | (fin) "finditer_from pos (p, cs) = []"
    using finditer_from_cases [of cs p pos] by blast
  then show ?case
  proof cases
    case skip
    with less.prems have "(i, m) \<in> set (finditer_from (Suc pos) (Some c, cs'))" by simp
    moreover have "length cs' < length cs" using skip(1) by simp
    ultimately have "doi_shape m \<and> Suc pos \<le> i \<and>
        (\<exists>a b. cs' = a @ m @ b \<and> length a = i - Suc pos)" by (rule less.hyps [rotated])
    then obtain a b where "doi_shape m" "Suc pos \<le> i" "cs' = a @ m @ b" "length a = i - Suc pos"
      by blast
    then have "doi_shape m \<and> pos \<le> i \<and> cs = (c # a) @ m @ b \<and> length (c # a) = i - pos"
      using skip(1) by auto
    then show ?thesis by blast
  next
    case hit
    from less.prems hit(4) have "(i, m) = (pos, x) \<or>
        (i, m) \<in> set (finditer_from (pos + length x) (q, rest))" by simp
    then show ?thesis
    proof
      assume "(i, m) = (pos, x)"
      then have "doi_shape m \<and> pos \<le> i \<and> cs = [] @ m @ rest \<and> length ([]::string) = i - pos"
        using hit by simp
      then show ?thesis by blast
    next
      assume "(i, m) \<in> set (finditer_from (pos + length x) (q, rest))"
      moreover have "length rest < length cs" using hit by simp
      ultimately have "doi_shape m \<and> pos + length x \<le> i \<and>
        (\<exists>a b. rest = a @ m @ b \<and> length a = i - (pos + length x))"
        by (rule less.hyps [rotated])
      then obtain a b where "doi_shape m" "pos + length x \<le> i" "rest = a @ m @ b"
          "length a = i - (pos + length x)" by blast
      then have "doi_shape m \<and> pos \<le> i \<and> cs = (x @ a) @ m @ b \<and> length (x @ a) = i - pos"
        using hit(1) by auto
      then show ?thesis by blast
    qed
  next
    case fin
    with less.prems show ?thesis by simp
  qed
qed

lemma finditer_from_sorted:
  "sorted_wrt (<) (map fst (finditer_from pos (p, cs)))"
proof (induction "length cs" arbitrary: cs pos p rule: less_induct)
  case less
  consider
    (skip) c cs' where "cs = c # cs'"
        "finditer_from pos (p, cs) = finditer_from (Suc pos) (Some c, cs')"
  | (hit) x q rest where "cs = x @ rest" "doi_shape x" "x \<noteq> []"
        "finditer_from pos (p, cs) = (pos, x) # finditer_from (pos + length x) (q, rest)"
  | (fin) "finditer_from pos (p, cs) = []"
    using finditer_from_cases [of cs p pos] by blast
  then show ?case
  proof cases
    case skip
    then show ?thesis using less.hyps [of cs' "Suc pos" "Some c"] by simp
  next
    case hit
    have "length rest < length cs" using hit by simp
    then have "sorted_wrt (<) (map fst (finditer_from (pos + length x) (q, rest)))"
      by (rule less.hyps)
    moreover have "pos < i" if "(i, m) \<in> set (finditer_from (pos + length x) (q, rest))" for i m
      using finditer_from_props [OF that] hit(3) by (cases x) auto
    ultimately show ?thesis using hit(4) by auto
  next
    case fin
    then show ?thesis by simp
  qed
qed

lemma rd_set: "set (remove_duplicates xs) = set xs"
  by (induction xs rule: remove_duplicates.induct) auto

lemma rd_distinct: "distinct (remove_duplicates xs)"
  by (induction xs rule: remove_duplicates.induct) (auto simp: rd_set)

lemma rd_id: "distinct xs \<Longrightarrow> remove_duplicates xs = xs"
proof (induction xs)
  case Nil
  show ?case by simp
next
  case (Cons x xs)
  then have "filter (\<lambda>y. y \<noteq> x) xs = xs" by (auto intro: filter_True)
  with Cons show ?case by simp
qed

lemma find_filter_other:
  "x \<noteq> m \<Longrightarrow> find (\<lambda>e. snd e = x) (filter (\<lambda>e. snd e \<noteq> m) ps) = find (\<lambda>e. snd e = x) ps"
  by (induction ps) auto

lemma rd_first_order:
  "sorted_wrt (<) (map fst ps) \<Longrightarrow>
     sorted_wrt (\<lambda>x y. first_start_in ps x < first_start_in ps y) (remove_duplicates (map snd ps))"
proof (induction "length ps" arbitrary: ps rule: less_induct)
  case less
  show ?case
  proof (cases ps)
    case Nil
    then show ?thesis by simp
  next
    case (Cons e ps')
    obtain i m where e: "e = (i, m)" by (cases e)
    let ?ps'' = "filter (\<lambda>e. snd e \<noteq> m) ps'"
    have rd: "remove_duplicates (map snd ps) = m # remove_duplicates (map snd ?ps'')"
      using Cons e by (simp add: filter_map comp_def)
    have srt': "sorted_wrt (<) (map fst ps')" and gt: "\<forall>e'\<in>set ps'. i < fst e'"
      using less.prems Cons e by auto
    have "sorted_wrt (<) (map fst ?ps'')"
      using srt' by (simp add: sorted_wrt_map sorted_wrt_filter)
    moreover have "length ?ps'' < length ps"
      using Cons by (simp add: le_imp_less_Suc)
    ultimately have IH: "sorted_wrt (\<lambda>x y. first_start_in ?ps'' x < first_start_in ?ps'' y)
                           (remove_duplicates (map snd ?ps''))"
      using less.hyps by blast
    have same: "first_start_in ps x = first_start_in ?ps'' x" if "x \<noteq> m" for x
      using that Cons e by (simp add: first_start_in_def find_filter_other)
    have mem: "x \<noteq> m \<and> x \<in> snd ` set ps'" if "x \<in> set (remove_duplicates (map snd ?ps''))" for x
      using that by (auto simp: rd_set)
    have tail: "sorted_wrt (\<lambda>x y. first_start_in ps x < first_start_in ps y)
                  (remove_duplicates (map snd ?ps''))"
    proof (rule sorted_wrt_mono_rel [OF _ IH])
      fix x y
      assume x: "x \<in> set (remove_duplicates (map snd ?ps''))"
        and y: "y \<in> set (remove_duplicates (map snd ?ps''))"
        and lt: "first_start_in ?ps'' x < first_start_in ?ps'' y"
      from mem [OF x] mem [OF y] have "x \<noteq> m" "y \<noteq> m" by blast+
      from same [OF this(1)] same [OF this(2)] lt
      show "first_start_in ps x < first_start_in ps y" by (simp only:)
    qed
    have head: "first_start_in ps m < first_start_in ps y"
      if "y \<in> set (remove_duplicates (map snd ?ps''))" for y
    proof -
      from mem [OF that] have ym: "y \<noteq> m" and "y \<in> snd ` set ps'" by auto
      then obtain e' where e': "find (\<lambda>e. snd e = y) ps' = Some e'"
        by (cases "find (\<lambda>e. snd e = y) ps'") (auto simp: find_None_iff)
      then have "e' \<in> set ps'" by (auto simp: find_Some_iff in_set_conv_nth)
      with gt have "i < fst e'" by blast
      moreover have "first_start_in ps y = fst e'"
        using Cons e ym e' by (simp add: first_start_in_def)
      moreover have "first_start_in ps m = i"
        using Cons e by (simp add: first_start_in_def)
      ultimately show ?thesis by simp
    qed
    show ?thesis unfolding rd using head tail by simp
  qed
qed

lemma REGEX_full:
  assumes "(q, []) \<in> set (ms REGEX (p, s))"
  shows "doi_shape s"
proof -
  have ne: "ms REGEX (p, s) \<noteq> []" using assms by auto
  have "prefix_rest s \<noteq> None"
  proof
    assume "prefix_rest s = None"
    then have "ms REGEX (p, s) = []" by (simp add: REGEX_ms)
    with ne show False by simp
  qed
  then obtain r where pr0: "prefix_rest s = Some r" by auto
  have "r \<noteq> []"
  proof
    assume "r = []"
    with pr0 have "ms REGEX (p, s) = []" by (simp add: REGEX_ms)
    with ne show False by simp
  qed
  then obtain c r' where r: "r = c # r'" by (cases r) auto
  have c: "sfx c"
  proof (rule ccontr)
    assume "\<not> sfx c"
    with pr0 r have "ms REGEX (p, s) = []" by (simp add: REGEX_ms)
    with ne show False by simp
  qed
  have "ms REGEX (p, s) = filter bnd (ms (AtLeast 0 (Chr sfx)) (Some c, r'))"
    using pr0 r c ne by (simp add: REGEX_ms split: if_splits)
  with assms have el: "(q, []) \<in> set (ms (AtLeast 0 (Chr sfx)) (Some c, r'))" and bq: "bnd (q, [])"
    by simp_all
  from star_Chr_elem [OF el] have all: "\<forall>x\<in>set r'. sfx x" and q: "q = lastp (Some c) r'"
    by auto
  from bq q have "is_word (last (c # r'))"
    by (auto simp: bnd_def word_before_def word_after_def lastp_def split: if_splits)
  with pr0 r c all show ?thesis by (simp add: doi_shape_def list_all_iff)
qed

lemma findall_dx_url:
  assumes "is_valid d"
  shows "finditer (dx_url d) = [(18, d)]"
proof -
  from assms have sh: "doi_shape d" by (simp add: is_valid_iff_shape)
  then have ne: "d \<noteq> []" using doi_shape_starts by blast
  have "finditer (dx_url d) = finditer_from 18 (Some CHR ''/'', d)"
    by (simp add: finditer_def dx_url_def finditer_from_skip ms_REGEX_not_one eval_nat_numeral)
  moreover from doi_shape_match [OF sh, of "Some CHR ''/''"] obtain L where
    L: "ms REGEX (Some CHR ''/'', d) = (Some (last d), []) # L"
    by (auto simp: word_before_def slash_class)
  from finditer_from_hit [OF L, of 18]
  have "finditer_from 18 (Some CHR ''/'', d) = [(18, d)]"
    by (auto simp: finditer_from_Nil)
  ultimately show ?thesis by simp
qed

section \<open>The claims about \<^verbatim>\<open>doi.py\<close>\<close>

text \<open>
  Claim C1. For every string \<open>s\<close>, \<^verbatim>\<open>is_valid(s)\<close> is true if and only if the DOI
  grammar matches \<open>s\<close> anchored at both ends: the match that \<^verbatim>\<open>REGEX.match\<close>
  reports, which starts at the beginning of \<open>s\<close>, is the whole of \<open>s\<close>. A string of
  which the reported match is only a proper part is invalid. The first conjunct is not
  the definition of \<open>is_valid\<close>: it says that whenever backtracking can reach the end
  of \<open>s\<close> at all, the match the engine prefers already ends there.
\<close>

theorem is_valid_anchored:
  "(is_valid s \<longleftrightarrow> anchored_match s) \<and>
   (\<forall>m. regex_match s = Some m \<longrightarrow> (is_valid s \<longleftrightarrow> m = s))"
proof -
  have "is_valid s \<longleftrightarrow> anchored_match s"
  proof
    assume "is_valid s"
    then have "doi_shape s" by (simp add: is_valid_iff_shape)
    from doi_shape_match [OF this, of None] show "anchored_match s"
      by (auto simp: anchored_match_def word_before_def)
  next
    assume "anchored_match s"
    then obtain q where "(q, []) \<in> set (ms REGEX (None, s))"
      by (auto simp: anchored_match_def list_ex_iff)
    then show "is_valid s" using REGEX_full is_valid_iff_shape by blast
  qed
  moreover have "\<forall>m. regex_match s = Some m \<longrightarrow> (is_valid s \<longleftrightarrow> m = s)"
    by (simp add: is_valid_def)
  ultimately show ?thesis by blast
qed

text \<open>
  The theorem at a valid DOI, and at a text that only starts with one.
\<close>

theorem is_valid_anchored_witness:
  "is_valid ''10.1234/ab'' \<and> anchored_match ''10.1234/ab'' \<and>
   regex_match ''10.1234/ab cd'' = Some ''10.1234/ab'' \<and> \<not> is_valid ''10.1234/ab cd''"
proof -
  have a: "anchored_match ''10.1234/ab''" by code_simp
  have m: "regex_match ''10.1234/ab cd'' = Some ''10.1234/ab''" by code_simp
  from a is_valid_anchored [of "''10.1234/ab''"] have "is_valid ''10.1234/ab''" by blast
  moreover from m is_valid_anchored [of "''10.1234/ab cd''"]
  have "is_valid ''10.1234/ab cd'' \<longleftrightarrow> ''10.1234/ab'' = ''10.1234/ab cd''" by blast
  then have "\<not> is_valid ''10.1234/ab cd''" by simp
  ultimately show ?thesis using a m by blast
qed

text \<open>
  Claim C3, as stated, fails: a valid DOI followed by one more word character is again a
  valid DOI.
\<close>

theorem trailing_char_counterexample:
  "is_valid ''10.1234/ab'' \<and> is_valid (''10.1234/ab'' @ [CHR ''c''])"
  by code_simp

text \<open>
  Claim C3, amended. For every string \<open>s\<close> with \<^verbatim>\<open>is_valid(s)\<close> true, every string
  obtained from \<open>s\<close> by adding one extra character at the front is invalid, and the
  string obtained by adding one extra character \<open>c\<close> at the end is invalid exactly when
  \<open>c\<close> is not a word character.
\<close>

theorem extra_char_anchoring:
  assumes "is_valid s"
  shows "\<not> is_valid (c # s) \<and> (is_valid (s @ [c]) \<longleftrightarrow> is_word c)"
proof -
  from assms have sh: "doi_shape s" by (simp add: is_valid_iff_shape)
  then obtain r where r: "prefix_rest s = Some r" "r \<noteq> []" "list_all sfx r" "is_word (last r)"
    by (auto simp: doi_shape_def split: option.splits)
  from doi_shape_starts [OF sh] obtain t where "s = CHR ''1'' # CHR ''0'' # CHR ''.'' # t" by blast
  then have "prefix_rest (c # s) = None" by (simp add: prefix_rest_def)
  then have front: "\<not> is_valid (c # s)" by (simp add: is_valid_iff_shape doi_shape_def)
  from prefix_rest_split [OF r(1)] obtain pre where
    pre: "s = pre @ r" "\<forall>x. prefix_rest (pre @ x) = Some x" by blast
  then have "prefix_rest (s @ [c]) = Some (r @ [c])" by simp
  then have "doi_shape (s @ [c]) \<longleftrightarrow> sfx c \<and> is_word c"
    using r(3) by (simp add: doi_shape_def)
  then have "is_valid (s @ [c]) \<longleftrightarrow> is_word c"
    using is_word_sfx by (auto simp: is_valid_iff_shape)
  with front show ?thesis by blast
qed

text \<open>
  The amended claim at a valid DOI, with a letter in front and a closing parenthesis
  behind.
\<close>

theorem extra_char_anchoring_witness:
  "is_valid ''10.1234/ab'' \<and> \<not> is_valid (CHR ''x'' # ''10.1234/ab'') \<and>
   \<not> is_valid (''10.1234/ab'' @ [CHR '')'']) \<and> \<not> is_word CHR '')''"
proof -
  have v: "is_valid ''10.1234/ab''" by code_simp
  have w: "\<not> is_word CHR '')''" by code_simp
  from extra_char_anchoring [OF v, of "CHR ''x''"] extra_char_anchoring [OF v, of "CHR '')''"] v w
  show ?thesis by blast
qed

text \<open>
  Claim C4. For every text \<open>t\<close>, \<^verbatim>\<open>extract_from_text(t)\<close> has no duplicate elements
  and holds exactly the identifiers that the scan of \<open>t\<close> finds, ordered by the first
  occurrence of each in \<open>t\<close>: the scan reports its matches at increasing offsets, each
  match is the text of \<open>t\<close> at its offset, and of two elements of the result the earlier
  one has its first match at the smaller offset. Removing duplicates once more changes
  nothing. The result is a function of the text alone, so two calls on the same text give
  the same sequence.
\<close>

theorem extract_dedup_first_occurrence:
  "distinct (extract_from_text t) \<and>
   set (extract_from_text t) = set (findall t) \<and>
   sorted_wrt (<) (map fst (finditer t)) \<and>
   (\<forall>e\<in>set (finditer t). take (length (snd e)) (drop (fst e) t) = snd e) \<and>
   sorted_wrt (\<lambda>x y. first_start t x < first_start t y) (extract_from_text t) \<and>
   remove_duplicates (extract_from_text t) = extract_from_text t"
proof -
  have srt: "sorted_wrt (<) (map fst (finditer t))"
    unfolding finditer_def by (rule finditer_from_sorted)
  have occ: "take (length (snd e)) (drop (fst e) t) = snd e" if "e \<in> set (finditer t)" for e
  proof -
    obtain i m where e: "e = (i, m)" by (cases e)
    with that have "(i, m) \<in> set (finditer_from 0 (None, t))" by (simp add: finditer_def)
    from finditer_from_props [OF this] obtain a b where "t = a @ m @ b" "length a = i" by auto
    then show ?thesis using e by auto
  qed
  have ord: "sorted_wrt (\<lambda>x y. first_start t x < first_start t y) (extract_from_text t)"
    unfolding first_start_def extract_from_text_def findall_def
    by (rule rd_first_order [OF srt])
  show ?thesis
    using srt occ ord
    by (simp add: extract_from_text_def rd_distinct rd_set rd_id)
qed

text \<open>
  The theorem at a text in which one identifier occurs twice, around another one.
\<close>

theorem extract_dedup_first_occurrence_witness:
  "extract_from_text ''a 10.1234/ab b 10.1234/cd c 10.1234/ab'' = [''10.1234/ab'', ''10.1234/cd''] \<and>
   findall ''a 10.1234/ab b 10.1234/cd c 10.1234/ab'' = [''10.1234/ab'', ''10.1234/cd'', ''10.1234/ab''] \<and>
   first_start ''a 10.1234/ab b 10.1234/cd c 10.1234/ab'' ''10.1234/ab''
     < first_start ''a 10.1234/ab b 10.1234/cd c 10.1234/ab'' ''10.1234/cd''"
proof -
  let ?t = "''a 10.1234/ab b 10.1234/cd c 10.1234/ab''"
  have e: "extract_from_text ?t = [''10.1234/ab'', ''10.1234/cd'']" by code_simp
  have f: "findall ?t = [''10.1234/ab'', ''10.1234/cd'', ''10.1234/ab'']" by code_simp
  from extract_dedup_first_occurrence [of ?t]
  have "sorted_wrt (\<lambda>x y. first_start ?t x < first_start ?t y) (extract_from_text ?t)"
    by blast
  then have "first_start ?t ''10.1234/ab'' < first_start ?t ''10.1234/cd''"
    unfolding e by simp
  with e f show ?thesis by blast
qed

text \<open>
  Claim C5. For every canonical DOI \<open>d\<close>, that is every \<open>d\<close> with \<^verbatim>\<open>is_valid(d)\<close>,
  \<^verbatim>\<open>to_canonical(to_url([d]))\<close> is \<^verbatim>\<open>[d]\<close> and, in the scalar form,
  \<^verbatim>\<open>to_canonical(to_url(d))\<close> is \<open>d\<close>.
\<close>

theorem url_roundtrip:
  assumes "is_valid d"
  shows "to_canonical (to_url (Many [d])) = Some (Many [d]) \<and>
         to_canonical (to_url (One d)) = Some (One d)"
  using findall_dx_url [OF assms]
  by (simp add: to_canonical_def extract_from_text_def findall_def)

text \<open>
  The round trip at the DOI of the doctests.
\<close>

theorem url_roundtrip_witness:
  "is_valid ''10.1209/0295-5075/111/40005'' \<and>
   to_canonical (to_url (Many [''10.1209/0295-5075/111/40005''])) =
     Some (Many [''10.1209/0295-5075/111/40005'']) \<and>
   to_canonical (to_url (One ''10.1209/0295-5075/111/40005'')) =
     Some (One ''10.1209/0295-5075/111/40005'')"
proof -
  have v: "is_valid ''10.1209/0295-5075/111/40005''" by code_simp
  from url_roundtrip [OF v] v show ?thesis by blast
qed

text \<open>
  Claim C7. For every text \<open>t\<close>, every string in the sequence returned by
  \<^verbatim>\<open>extract_from_text(t)\<close> fully matches the DOI grammar from start to end:
  \<^verbatim>\<open>is_valid\<close> holds of each extracted element.
\<close>

theorem extracted_are_valid: "\<forall>m\<in>set (extract_from_text t). is_valid m"
proof
  fix m assume "m \<in> set (extract_from_text t)"
  then obtain i where "(i, m) \<in> set (finditer_from 0 (None, t))"
    by (auto simp: extract_from_text_def rd_set findall_def finditer_def)
  from finditer_from_props [OF this] show "is_valid m" by (simp add: is_valid_iff_shape)
qed

text \<open>
  The theorem at a text with one identifier, followed by a full stop that is not part of
  it.
\<close>

theorem extracted_are_valid_witness:
  "extract_from_text ''see 10.1234/ab.'' = [''10.1234/ab''] \<and> is_valid ''10.1234/ab''"
proof -
  have e: "extract_from_text ''see 10.1234/ab.'' = [''10.1234/ab'']" by code_simp
  with extracted_are_valid [of "''see 10.1234/ab.''"] show ?thesis by simp
qed

text \<open>
  Claim C8. For every input to \<^verbatim>\<open>to_canonical\<close>, a single string or a list of
  strings, from which extraction recovers no identifier, \<^verbatim>\<open>to_canonical\<close> returns
  \<^verbatim>\<open>None\<close>, not an empty sequence and not an error.
\<close>

theorem to_canonical_nothing_extracted:
  "(extract_from_text u = [] \<longrightarrow> to_canonical (One u) = None) \<and>
   ((\<forall>u\<in>set us. extract_from_text u = []) \<longrightarrow> to_canonical (Many us) = None)"
proof -
  have "to_canonical (Many us) = None" if "\<forall>u\<in>set us. extract_from_text u = []"
    using that by (cases us) (simp_all add: to_canonical_def)
  then show ?thesis by (simp add: to_canonical_def)
qed

text \<open>
  The theorem at a string and at a list of strings without an identifier.
\<close>

theorem to_canonical_nothing_extracted_witness:
  "extract_from_text ''aaaa'' = [] \<and> extract_from_text ''10.12/x'' = [] \<and>
   to_canonical (One ''aaaa'') = None \<and> to_canonical (Many [''aaaa'', ''10.12/x'']) = None"
proof -
  have a: "extract_from_text ''aaaa'' = []" by code_simp
  have b: "extract_from_text ''10.12/x'' = []" by code_simp
  from a b have all: "\<forall>u\<in>set [''aaaa'', ''10.12/x'']. extract_from_text u = []" by simp
  from to_canonical_nothing_extracted [of "''aaaa''" "[''aaaa'', ''10.12/x'']"] a b all
  show ?thesis by blast
qed

section \<open>The scanner: buffers and the loop\<close>

lemma scan_doi:
  "scan_identifiers valid_identifiers t =
     (case extract_from_text t of [] \<Rightarrow> None | found # _ \<Rightarrow> Some (''doi'', found))"
  by (simp add: valid_identifiers_def modules_def split: list.split)

lemma strip_sublist: "sublist (strip l) l"
proof -
  let ?m = "dropWhile is_space l"
  have "?m = rev (dropWhile is_space (rev ?m)) @ rev (takeWhile is_space (rev ?m))"
    by (metis rev_append rev_rev_ident takeWhile_dropWhile_id)
  then have "?m = strip l @ rev (takeWhile is_space (rev ?m))"
    by (simp only: strip_def)
  then have "prefix (strip l) ?m" by (metis prefixI)
  moreover have "suffix ?m l" by (rule suffix_dropWhile)
  ultimately show ?thesis
    by (meson prefix_imp_sublist suffix_imp_sublist sublist_order.order_trans)
qed

lemma sublist_app_sep:
  assumes "sublist d (a @ c # b)" and "c \<notin> set d"
  shows "sublist d a \<or> sublist d b"
proof -
  from assms(1) consider "sublist d a" | "sublist d (c # b)"
    | xs1 xs2 where "d = xs1 @ xs2" "suffix xs1 a" "prefix xs2 (c # b)"
    unfolding sublist_append by blast
  then show ?thesis
  proof cases
    case 1
    then show ?thesis by simp
  next
    case 2
    then have "prefix d (c # b) \<or> sublist d b" by (simp add: sublist_Cons_right)
    then show ?thesis using assms(2) by (cases d) (auto simp: prefix_Cons)
  next
    case 3
    show ?thesis
    proof (cases xs2)
      case Nil
      with 3 show ?thesis by (auto intro: suffix_imp_sublist)
    next
      case (Cons x xs)
      with 3 assms(2) show ?thesis by (auto simp: prefix_Cons)
    qed
  qed
qed

lemma sublist_join:
  "sublist d (join [c] ts) \<Longrightarrow> c \<notin> set d \<Longrightarrow> d \<noteq> [] \<Longrightarrow> \<exists>t\<in>set ts. sublist d t"
proof (induction "[c]" ts rule: join.induct)
  case 1
  then show ?case by simp
next
  case (2 x)
  then show ?case by simp
next
  case (3 x y ys)
  from "3.prems"(1) have "sublist d (x @ c # join [c] (y # ys))" by simp
  from sublist_app_sep [OF this "3.prems"(2)] 3 show ?case by auto
qed

lemma valid_no_space:
  assumes "is_valid d"
  shows "CHR '' '' \<notin> set d \<and> d \<noteq> []"
proof -
  from assms have sh: "doi_shape d" by (simp add: is_valid_iff_shape)
  then obtain r where r: "prefix_rest d = Some r" "list_all sfx r"
    by (auto simp: doi_shape_def split: option.splits)
  from prefix_rest_split [OF r(1)] obtain pre where
    pre: "d = pre @ r" "pre \<noteq> []" "\<forall>c\<in>set pre. \<not> is_space c" by blast
  have sp: "is_space CHR '' ''" by (simp add: is_space_def)
  have "\<forall>c\<in>set r. \<not> is_space c" using r(2) by (simp add: list_all_iff sfx_def)
  with pre sp show ?thesis by auto
qed

lemma decode_strip_lines:
  "decode_strip lines = Some ts \<Longrightarrow> \<forall>t\<in>set ts. \<exists>l. Utf8 l \<in> set lines \<and> t = strip l"
proof (induction lines arbitrary: ts rule: decode_strip.induct)
  case 1
  then show ?case by simp
next
  case (2 ls)
  then show ?case by simp
next
  case (3 s ls)
  from "3.prems" obtain us where us: "decode_strip ls = Some us" "ts = strip s # us"
    by (auto split: option.splits)
  from "3.IH" [OF us(1)] have "\<forall>t\<in>set us. \<exists>l. Utf8 l \<in> set (Utf8 s # ls) \<and> t = strip l"
    by fastforce
  moreover have "\<exists>l. Utf8 l \<in> set (Utf8 s # ls) \<and> strip s = strip l" by auto
  ultimately show ?case using us(2) by simp
qed

lemma decode_strip_Utf8: "decode_strip (map Utf8 ls) = Some (map strip ls)"
  by (induction ls) simp_all

lemma extracted_sublist: "m \<in> set (extract_from_text t) \<Longrightarrow> sublist m t"
proof -
  assume "m \<in> set (extract_from_text t)"
  then obtain i where "(i, m) \<in> set (finditer_from 0 (None, t))"
    by (auto simp: extract_from_text_def rd_set findall_def finditer_def)
  from finditer_from_props [OF this] show "sublist m t" by (auto simp: sublist_def)
qed

lemma buffer_no_split:
  assumes v: "is_valid d" and no: "\<forall>l. Utf8 l \<in> set lines \<longrightarrow> \<not> sublist d l"
    and b: "buffer_of lines = Some b"
  shows "\<not> sublist d b \<and> d \<notin> set (extract_from_text b)"
proof -
  from b obtain ts where ts: "decode_strip lines = Some ts" "b = join '' '' ts"
    by (auto simp: buffer_of_def)
  have "\<not> sublist d b"
  proof
    assume "sublist d b"
    with ts(2) valid_no_space [OF v] obtain t where t: "t \<in> set ts" "sublist d t"
      using sublist_join [of d "CHR '' ''" ts] by auto
    with decode_strip_lines [OF ts(1)] obtain l where l: "Utf8 l \<in> set lines" "t = strip l"
      by blast
    with t(2) strip_sublist [of l] have "sublist d l"
      by (meson sublist_order.order_trans)
    with no l(1) show False by blast
  qed
  then show ?thesis using extracted_sublist by blast
qed

lemma poll_loop_result:
  "fst (poll_loop totext) = Inr (n, Some d) \<Longrightarrow>
     \<exists>lines\<in>set totext. \<exists>b. buffer_of lines = Some b \<and> d \<in> set (extract_from_text b)"
proof (induction totext)
  case Nil
  then show ?case by simp
next
  case (Cons lines later)
  show ?case
  proof (cases "buffer_of lines")
    case None
    with Cons.prems show ?thesis by simp
  next
    case (Some b)
    show ?thesis
    proof (cases "extract_from_text b")
      case Nil
      with Some Cons.prems have "fst (poll_loop later) = Inr (n, Some d)"
        by (simp add: scan_doi split: prod.splits)
      from Cons.IH [OF this] show ?thesis by auto
    next
      case (Cons found more)
      with Some Cons.prems have "d = found" by (simp add: scan_doi)
      with Some Cons show ?thesis by auto
    qed
  qed
qed

lemma find_identifiers_runs:
  "fst (find_identifiers (runs totext) src) = Inr (n, Some d) \<Longrightarrow>
     fst (poll_loop totext) = Inr (n, Some d)"
  by (auto simp: find_identifiers_def popen_loop_def runs_def split: if_splits prod.splits)

lemma poll_loop_scanned:
  "Scanned b \<in> set (snd (poll_loop totext)) \<Longrightarrow> \<exists>lines\<in>set totext. buffer_of lines = Some b"
proof (induction totext)
  case Nil
  then show ?case by simp
next
  case (Cons lines later)
  then show ?case
    by (auto split: option.splits prod.splits)
qed

lemma find_identifiers_scanned:
  "Scanned b \<in> set (snd (find_identifiers (runs totext) src)) \<Longrightarrow>
     \<exists>lines\<in>set totext. buffer_of lines = Some b"
  using poll_loop_scanned [of b totext]
  by (auto simp: find_identifiers_def popen_loop_def runs_def split: if_splits prod.splits)

section \<open>The claims about \<^verbatim>\<open>papers/identifiers.py\<close>\<close>

text \<open>
  Claim C2 says that \<^verbatim>\<open>find_identifiers\<close> never raises, whatever the conversion
  process does, a spawn failure and undecodable output included. The function has no
  exception handler: where no converter can be started, \<^verbatim>\<open>subprocess.Popen\<close> raises
  out of it, and where a line of the output is not UTF-8, \<^verbatim>\<open>decode\<close> does. Its
  docstring promises \<^verbatim>\<open>(None, None)\<close> if not found or an error occurred.
\<close>

theorem errors_propagate:
  "find_identifiers no_converter ''paper.pdf'' = (Inl OSError, []) \<and>
   find_identifiers (runs [[Utf8 ''Title'', Undecodable]]) ''paper.pdf''
     = (Inl UnicodeDecodeError, [Spawned [''pdftotext'', ''paper.pdf'', ''-'']])"
  by code_simp

text \<open>
  Claim C6 says that an identifier which the conversion process emits is found from the
  output read so far and returned without requiring the full document to be converted.
  The loop is written for that (line-buffered pipe, a poll in every round,
  \<^verbatim>\<open>terminate()\<close> on the first hit), but it reads with \<^verbatim>\<open>readlines()\<close>, which
  returns at the end of the output only. For every converter output that decodes and
  holds an identifier, and however many rounds the converter is still seen alive, the
  run scans exactly one buffer, the one built from the whole output, and returns the
  first identifier of that buffer: the identifier comes back only after the full document
  has been converted.
\<close>

theorem whole_output_read_before_scan:
  assumes ext: "endswith src ''.pdf'' \<or> endswith src ''.djvu''"
    and buf: "buffer_of output = Some b" and hit: "extract_from_text b = d # ds"
  shows "fst (find_identifiers (runs (readlines_rounds output k)) src)
           = Inr (Some ''doi'', Some d) \<and>
         scanned (snd (find_identifiers (runs (readlines_rounds output k)) src)) = [Some b]"
  using ext buf hit
  by (auto simp: find_identifiers_def popen_loop_def runs_def readlines_rounds_def scan_doi)

text \<open>
  The theorem at a document of three lines with the identifier in the first: the buffer
  of the only scan ends with the last line of the document.
\<close>

theorem whole_output_read_before_scan_witness:
  "endswith ''a.pdf'' ''.pdf'' \<and>
   buffer_of [Utf8 (''see 10.1234/ab'' @ [CHR 0x0A]), Utf8 (''page two'' @ [CHR 0x0A]),
              Utf8 (''last page'' @ [CHR 0x0A])]
     = Some ''see 10.1234/ab page two last page'' \<and>
   extract_from_text ''see 10.1234/ab page two last page'' = [''10.1234/ab''] \<and>
   fst (find_identifiers
          (runs (readlines_rounds
                   [Utf8 (''see 10.1234/ab'' @ [CHR 0x0A]), Utf8 (''page two'' @ [CHR 0x0A]),
                    Utf8 (''last page'' @ [CHR 0x0A])] 2)) ''a.pdf'')
     = Inr (Some ''doi'', Some ''10.1234/ab'') \<and>
   scanned (snd (find_identifiers
          (runs (readlines_rounds
                   [Utf8 (''see 10.1234/ab'' @ [CHR 0x0A]), Utf8 (''page two'' @ [CHR 0x0A]),
                    Utf8 (''last page'' @ [CHR 0x0A])] 2)) ''a.pdf''))
     = [Some ''see 10.1234/ab page two last page'']"
proof -
  let ?out = "[Utf8 (''see 10.1234/ab'' @ [CHR 0x0A]), Utf8 (''page two'' @ [CHR 0x0A]),
               Utf8 (''last page'' @ [CHR 0x0A])]"
  have e: "endswith ''a.pdf'' ''.pdf''" by code_simp
  have b: "buffer_of ?out = Some ''see 10.1234/ab page two last page''" by code_simp
  have x: "extract_from_text ''see 10.1234/ab page two last page'' = [''10.1234/ab'']"
    by code_simp
  from e have ext: "endswith ''a.pdf'' ''.pdf'' \<or> endswith ''a.pdf'' ''.djvu''" by simp
  from whole_output_read_before_scan [OF ext b x, of 2] e b x
  show ?thesis by simp
qed

text \<open>
  Claim C9. For every source path whose name ends neither in \<^verbatim>\<open>.pdf\<close> nor in
  \<^verbatim>\<open>.djvu\<close>, \<^verbatim>\<open>find_identifiers\<close> returns the \<^verbatim>\<open>(None, None)\<close> sentinel and
  spawns no external process: the run leaves no event behind, whatever the operating
  system would start.
\<close>

theorem unsupported_extension:
  "\<not> endswith src ''.pdf'' \<Longrightarrow> \<not> endswith src ''.djvu'' \<Longrightarrow>
     find_identifiers os src = (Inr (None, None), [])"
  by (simp add: find_identifiers_def)

text \<open>
  The theorem at a path with the extension in upper case: the comparison is
  case-sensitive.
\<close>

theorem unsupported_extension_witness:
  "\<not> endswith ''paper.PDF'' ''.pdf'' \<and> \<not> endswith ''paper.PDF'' ''.djvu'' \<and>
   find_identifiers (runs [[Utf8 ''10.1234/ab'']]) ''paper.PDF'' = (Inr (None, None), [])"
proof -
  have a: "\<not> endswith ''paper.PDF'' ''.pdf''" by code_simp
  have b: "\<not> endswith ''paper.PDF'' ''.djvu''" by code_simp
  from unsupported_extension [OF a b] a b show ?thesis by blast
qed

text \<open>
  Claim C10. In \<^verbatim>\<open>find_identifiers\<close> the buffer scanned in each round of the loop is
  built by decoding every line read as UTF-8, stripping leading and trailing whitespace
  from each and joining the lines with a single space. Consequently an identifier whose
  characters are split across two output lines, so that no single line contains it,
  never occurs in a scanned buffer and is not found: it is not among the identifiers
  extracted from any buffer and is not the identifier that \<^verbatim>\<open>find_identifiers\<close>
  returns.
\<close>

theorem split_identifier_not_found:
  assumes v: "is_valid d"
    and no: "\<forall>lines\<in>set totext. \<forall>l. Utf8 l \<in> set lines \<longrightarrow> \<not> sublist d l"
  shows "(\<forall>ls. buffer_of (map Utf8 ls) = Some (join '' '' (map strip ls))) \<and>
         (\<forall>src b. Scanned b \<in> set (snd (find_identifiers (runs totext) src)) \<longrightarrow>
              (\<exists>lines\<in>set totext. buffer_of lines = Some b)) \<and>
         (\<forall>lines\<in>set totext. \<forall>b. buffer_of lines = Some b \<longrightarrow>
              \<not> sublist d b \<and> d \<notin> set (extract_from_text b)) \<and>
         (\<forall>src n. fst (find_identifiers (runs totext) src) \<noteq> Inr (n, Some d))"
proof -
  have one: "\<forall>ls. buffer_of (map Utf8 ls) = Some (join '' '' (map strip ls))"
    by (simp add: buffer_of_def decode_strip_Utf8)
  have two: "\<forall>src b. Scanned b \<in> set (snd (find_identifiers (runs totext) src)) \<longrightarrow>
              (\<exists>lines\<in>set totext. buffer_of lines = Some b)"
    using find_identifiers_scanned by blast
  have three: "\<forall>lines\<in>set totext. \<forall>b. buffer_of lines = Some b \<longrightarrow>
              \<not> sublist d b \<and> d \<notin> set (extract_from_text b)"
    using buffer_no_split [OF v] no by blast
  have four: "\<forall>src n. fst (find_identifiers (runs totext) src) \<noteq> Inr (n, Some d)"
  proof (intro allI notI)
    fix src n
    assume "fst (find_identifiers (runs totext) src) = Inr (n, Some d)"
    from poll_loop_result [OF find_identifiers_runs [OF this]] three show False by blast
  qed
  from one two three four show ?thesis by blast
qed

text \<open>
  The theorem at an identifier broken after \<^verbatim>\<open>10.1234/ab\<close>.
\<close>

theorem split_identifier_not_found_witness:
  "is_valid ''10.1234/abcd'' \<and>
   \<not> sublist ''10.1234/abcd'' (''doi 10.1234/ab'' @ [CHR 0x0A]) \<and>
   \<not> sublist ''10.1234/abcd'' (''cd'' @ [CHR 0x0A]) \<and>
   buffer_of [Utf8 (''doi 10.1234/ab'' @ [CHR 0x0A]), Utf8 (''cd'' @ [CHR 0x0A])]
     = Some ''doi 10.1234/ab cd'' \<and>
   \<not> sublist ''10.1234/abcd'' ''doi 10.1234/ab cd'' \<and>
   fst (find_identifiers (runs [[Utf8 (''doi 10.1234/ab'' @ [CHR 0x0A]), Utf8 (''cd'' @ [CHR 0x0A])]])
          ''a.pdf'') \<noteq> Inr (Some ''doi'', Some ''10.1234/abcd'')"
proof -
  let ?l1 = "''doi 10.1234/ab'' @ [CHR 0x0A]" and ?l2 = "''cd'' @ [CHR 0x0A]"
  have v: "is_valid ''10.1234/abcd''" by code_simp
  have n1: "\<not> sublist ''10.1234/abcd'' ?l1" by code_simp
  have n2: "\<not> sublist ''10.1234/abcd'' ?l2" by code_simp
  have b: "buffer_of [Utf8 ?l1, Utf8 ?l2] = Some ''doi 10.1234/ab cd''" by code_simp
  have no: "\<forall>lines\<in>set [[Utf8 ?l1, Utf8 ?l2]]. \<forall>l. Utf8 l \<in> set lines \<longrightarrow>
              \<not> sublist ''10.1234/abcd'' l"
    using n1 n2 by auto
  from split_identifier_not_found [OF v no] b
  have "\<not> sublist ''10.1234/abcd'' ''doi 10.1234/ab cd''"
    and "fst (find_identifiers (runs [[Utf8 ?l1, Utf8 ?l2]]) ''a.pdf'')
           \<noteq> Inr (Some ''doi'', Some ''10.1234/abcd'')"
    by auto
  with v n1 n2 b show ?thesis by blast
qed

end
